theory Spec2Isabelle
  imports Complex_Main "HOL-Library.Multiset"
begin

section \<open>The Autoplay component of the slider (components/Autoplay/Autoplay.ts)\<close>

text \<open>
  The component is a closure over a handful of mutable variables (\<open>stopped\<close>,
  \<open>hovered\<close>, \<open>focused\<close>, \<open>shuffleBuffer\<close>), a timer created by
  \<open>RequestInterval\<close>, the toggle button and the event bus. The embedding passes
  that state explicitly. What the component does to the outside (events emitted, calls
  of \<open>Splide.go\<close>) is appended to a trace.
\<close>

subsection \<open>JavaScript numbers and the per-slide interval attribute\<close>

text \<open>
  A JavaScript number, as far as \<open>onMove\<close> looks at it: a finite value (given by
  its rational value; \<open>-0\<close> and \<open>0\<close> are both \<open>Num 0\<close>), an infinity,
  or \<open>NaN\<close>. \<open>truthy\<close> is the language's ToBoolean on numbers: only zero and
  \<open>NaN\<close> are falsy.
\<close>

datatype jsnum = NaN | Num rat | PosInfinity | NegInfinity

fun truthy :: "jsnum \<Rightarrow> bool" where
  "truthy NaN = False"
| "truthy (Num q) = (q \<noteq> 0)"
| "truthy PosInfinity = True"
| "truthy NegInfinity = True"

text \<open>
  The string-to-number coercion of the unary plus in
  \<open>+getAttribute( Slide.slide, INTERVAL_DATA_ATTRIBUTE )\<close> is a primitive of the
  language, applied to the attribute's value (\<open>None\<close> is the \<open>null\<close> that
  \<open>getAttribute\<close> returns for an absent attribute). It is a parameter of the
  model (\<open>toNumber\<close>).
\<close>

type_synonym unary_plus = "string option \<Rightarrow> jsnum"

subsection \<open>Options and collaborators\<close>

datatype autoplay_option = AutoplayOff | AutoplayOn | AutoplayPause

record options =
  autoplay :: autoplay_option
  interval :: jsnum
  pauseOnHover :: bool
  pauseOnFocus :: bool
  resetProgress :: bool
  autoplayShuffle :: bool
  i18n_play :: string
  i18n_pause :: string

text \<open>
  A slide, reduced to what the component reads of it: the value of its interval data
  attribute.
\<close>

record slide =
  interval_attr :: "string option"

text \<open>
  The queries the component makes to the other components. Their answers are fixed
  during one call of the component and may differ from one call to the next, so every
  operation takes them as an argument.
\<close>

record components =
  getLength :: nat
  isEnough :: bool
  getAt :: "nat \<Rightarrow> slide option"
  getIndex :: nat

subsection \<open>The timer\<close>

text \<open>
  Modelled from the spec: the timer constructor \<open>RequestInterval\<close>
  (constructors/RequestInterval) is not part of the sources at hand. The spec gives it
  the operations \<open>start(resumeProgress)\<close>, \<open>pause()\<close>, \<open>rewind()\<close>,
  \<open>set(durationMs)\<close>, \<open>cancel()\<close> and \<open>isPaused()\<close>; starting resumes the
  progress or restarts it from zero, and rewinding restarts the current interval from
  zero. A timer is created paused.
\<close>

record timer =
  paused :: bool
  timer_interval :: jsnum
  rate :: rat

definition RequestInterval :: "jsnum \<Rightarrow> timer" where
  "RequestInterval i = \<lparr> paused = True, timer_interval = i, rate = 0 \<rparr>"

definition timer_start :: "bool \<Rightarrow> timer \<Rightarrow> timer" where
  "timer_start resume t = t\<lparr> paused := False, rate := (if resume then rate t else 0) \<rparr>"

definition timer_pause :: "timer \<Rightarrow> timer" where
  "timer_pause t = t\<lparr> paused := True \<rparr>"

definition timer_rewind :: "timer \<Rightarrow> timer" where
  "timer_rewind t = t\<lparr> rate := 0 \<rparr>"

definition timer_set :: "jsnum \<Rightarrow> timer \<Rightarrow> timer" where
  "timer_set time t = t\<lparr> timer_interval := time \<rparr>"

definition timer_cancel :: "timer \<Rightarrow> timer" where
  "timer_cancel t = t\<lparr> paused := True, rate := 0 \<rparr>"

subsection \<open>The component's state\<close>

text \<open>The toggle button: whether it carries the active class, and its ARIA attributes.\<close>

record toggle_button =
  class_active :: bool
  aria_label :: "string option"
  aria_controls :: "string option"

datatype event = EVENT_AUTOPLAY_PLAY | EVENT_AUTOPLAY_PAUSE

text \<open>
  The argument of \<open>Splide.go\<close>: a control string such as \<open>'>'\<close>, a slide index,
  or \<open>undefined\<close>.
\<close>

datatype control = Token string | Index nat | Undefined

datatype effect = Emit event | Go control

text \<open>
  \<open>Math.floor( Math.random() * k )\<close> is an integer in \<open>[0, k)\<close>, and which one is
  not under the program's control. The random source is the sequence of the raw values
  still to come, and the value drawn is the next raw value reduced modulo \<open>k\<close>, so
  that every sequence of draws is the run of some source.
\<close>

type_synonym rng = "nat \<Rightarrow> nat"

definition random_floor :: "nat \<Rightarrow> rng \<Rightarrow> nat \<times> rng" where
  "random_floor k g = (g 0 mod k, \<lambda>i. g (Suc i))"

text \<open>
  \<open>hovered\<close> and \<open>focused\<close> are declared without a value; they are only read for
  their truthiness, so \<open>undefined\<close> is \<open>False\<close> here. \<open>shuffleBuffer\<close> is
  \<open>null\<close> (\<open>None\<close>) when shuffling is off. \<open>listening\<close> says that
  \<open>listen()\<close> has bound the listeners.
\<close>

record state =
  stopped :: bool
  hovered :: bool
  focused :: bool
  shuffleBuffer :: "nat list option"
  timer :: timer
  toggle :: "toggle_button option"
  listening :: bool
  random :: rng
  trace :: "effect list"

definition emit :: "event \<Rightarrow> state \<Rightarrow> state" where
  "emit e s = s\<lparr> trace := trace s @ [Emit e] \<rparr>"

definition go :: "control \<Rightarrow> state \<Rightarrow> state" where
  "go c s = s\<lparr> trace := trace s @ [Go c] \<rparr>"

definition isPaused :: "state \<Rightarrow> bool" where
  "isPaused s = paused (timer s)"

text \<open>The state right after \<open>Autoplay( Splide, Components, options )\<close> has run.\<close>

definition Autoplay :: "options \<Rightarrow> toggle_button option \<Rightarrow> rng \<Rightarrow> state" where
  "Autoplay opts tg g =
     \<lparr> stopped = (autoplay opts = AutoplayPause),
       hovered = False,
       focused = False,
       shuffleBuffer = (if autoplayShuffle opts then Some [] else None),
       timer = RequestInterval (interval opts),
       toggle = tg,
       listening = False,
       random = g,
       trace = [] \<rparr>"

subsection \<open>play, pause, autoToggle, update\<close>

definition update :: "options \<Rightarrow> state \<Rightarrow> state" where
  "update opts s =
     (case toggle s of
        None \<Rightarrow> s
      | Some b \<Rightarrow>
          s\<lparr> toggle := Some (b\<lparr> class_active := \<not> stopped s,
                                aria_label := Some (if stopped s then i18n_play opts
                                                    else i18n_pause opts) \<rparr>) \<rparr>)"

definition play :: "options \<Rightarrow> components \<Rightarrow> state \<Rightarrow> state" where
  "play opts cs s =
     (if isPaused s \<and> isEnough cs then
        emit EVENT_AUTOPLAY_PLAY
          (update opts
             (s\<lparr> timer := timer_start (\<not> resetProgress opts) (timer s),
                 stopped := False, hovered := False, focused := False \<rparr>))
      else s)"

definition pause :: "options \<Rightarrow> bool \<Rightarrow> state \<Rightarrow> state" where
  "pause opts stop s =
     (let s1 = update opts (s\<lparr> stopped := stop \<rparr>) in
      if \<not> isPaused s1 then
        emit EVENT_AUTOPLAY_PAUSE (s1\<lparr> timer := timer_pause (timer s1) \<rparr>)
      else s1)"

definition autoToggle :: "options \<Rightarrow> components \<Rightarrow> state \<Rightarrow> state" where
  "autoToggle opts cs s =
     (if \<not> stopped s then
        (if hovered s \<or> focused s then pause opts False s else play opts cs s)
      else s)"

subsection \<open>onMove\<close>

text \<open>
  \<open>Slide && +getAttribute( ... ) || options.interval\<close>: \<open>&&\<close> binds tighter than
  \<open>||\<close>. A missing slide is falsy, so the right operand is taken; otherwise the
  coerced attribute is taken if it is truthy, and the right operand if not.
\<close>

definition onMove :: "unary_plus \<Rightarrow> options \<Rightarrow> components \<Rightarrow> nat \<Rightarrow> state \<Rightarrow> state" where
  "onMove toNumber opts cs index s =
     (let time =
        (case getAt cs index of
           None \<Rightarrow> interval opts
         | Some Slide \<Rightarrow>
             (if truthy (toNumber (interval_attr Slide)) then toNumber (interval_attr Slide)
              else interval opts))
      in s\<lparr> timer := timer_set time (timer s) \<rparr>)"

subsection \<open>The shuffle buffer\<close>

text \<open>
  \<open>Array( end ).fill( undefined ).map( ( _, i ) => i )\<close>: the callback of
  \<open>map\<close> receives the element and its position.
\<close>

definition map_indexed :: "('a \<Rightarrow> nat \<Rightarrow> 'b) \<Rightarrow> 'a list \<Rightarrow> 'b list" where
  "map_indexed f xs = map (\<lambda>(i, x). f x i) (enumerate 0 xs)"

definition range_js :: "nat \<Rightarrow> nat list" where
  "range_js end = map_indexed (\<lambda>_ i. i) (replicate end ())"

text \<open>
  The loop of \<open>shuffleArray\<close>, on the array as a value. The destructuring swap
  reads both elements before it writes either. An empty array starts the loop at
  \<open>-1\<close> in the source and at \<open>0\<close> here; the body runs in neither case.
\<close>

fun shuffle_loop :: "nat \<Rightarrow> 'a list \<Rightarrow> rng \<Rightarrow> 'a list \<times> rng" where
  "shuffle_loop index arr g =
     (if 0 < index then
        (case random_floor (index + 1) g of
           (newIndex, g') \<Rightarrow>
             shuffle_loop (index - 1) (arr[index := arr ! newIndex, newIndex := arr ! index]) g')
      else (arr, g))"

declare shuffle_loop.simps [simp del]

definition shuffleArray :: "'a list \<Rightarrow> rng \<Rightarrow> 'a list \<times> rng" where
  "shuffleArray arr g = shuffle_loop (length arr - 1) arr g"

definition initShuffle :: "components \<Rightarrow> rng \<Rightarrow> nat list \<times> rng" where
  "initShuffle cs g = shuffleArray (range_js (getLength cs)) g"

text \<open>
  The same function on a store of arrays, where an array is known by its address (its
  position in the store) and the caller keeps the address it passed. The spread
  \<open>[ ...arr ]\<close> allocates a new array, and the loop writes to that one in place.
\<close>

type_synonym addr = nat
type_synonym 'a store = "'a list list"

fun shuffle_loop_store :: "nat \<Rightarrow> addr \<Rightarrow> 'a store \<Rightarrow> rng \<Rightarrow> 'a store \<times> rng" where
  "shuffle_loop_store index arr h g =
     (if 0 < index then
        (case random_floor (index + 1) g of
           (newIndex, g') \<Rightarrow>
             shuffle_loop_store (index - 1) arr
               (h[arr := (h ! arr)[index := h ! arr ! newIndex, newIndex := h ! arr ! index]]) g')
      else (h, g))"

declare shuffle_loop_store.simps [simp del]

definition shuffleArray_store :: "addr \<Rightarrow> 'a store \<Rightarrow> rng \<Rightarrow> addr \<times> 'a store \<times> rng" where
  "shuffleArray_store arr h g =
     (let arr' = length h;
          h1 = h @ [h ! arr]
      in case shuffle_loop_store (length (h1 ! arr') - 1) arr' h1 g of
           (h2, g') \<Rightarrow> (arr', h2, g'))"

definition shuffle :: "components \<Rightarrow> bool \<Rightarrow> state \<Rightarrow> state" where
  "shuffle cs on s =
     (let s1 = (if on \<and> shuffleBuffer s = None then
                  (case initShuffle cs (random s) of
                     (p, g') \<Rightarrow> s\<lparr> shuffleBuffer := Some p, random := g' \<rparr>)
                else s)
      in if \<not> on \<and> shuffleBuffer s1 \<noteq> None then s1\<lparr> shuffleBuffer := None \<rparr> else s1)"

subsection \<open>onInterval\<close>

text \<open>\<open>Array.prototype.shift\<close>: \<open>undefined\<close> (\<open>None\<close>) on an empty array.\<close>

fun shift :: "'a list \<Rightarrow> 'a option \<times> 'a list" where
  "shift [] = (None, [])"
| "shift (x # xs) = (Some x, xs)"

text \<open>
  One pass through the body of the \<open>do ... while\<close> loop, in its two steps.
  \<open>draw_front\<close> is the draw (lines 213 to 217): the front of the buffer is taken,
  and when there is none or it is not below the slide count, the buffer is replaced by
  a new permutation and the front of that one is taken. The buffer holds numbers only,
  so the test for \<open>null\<close> never fires. \<open>refill\<close> is the append (lines 218 to
  220). Both give the buffer and the random source they leave behind.
\<close>

definition draw_front :: "components \<Rightarrow> nat list \<Rightarrow> rng \<Rightarrow> nat option \<times> nat list \<times> rng" where
  "draw_front cs buf g =
     (let slideLen = getLength cs in
      case shift buf of
        (nextIndex, buf1) \<Rightarrow>
          if (case nextIndex of None \<Rightarrow> True | Some i \<Rightarrow> slideLen \<le> i) then
            (case initShuffle cs g of
               (p, g') \<Rightarrow> (case shift p of (nextIndex', p') \<Rightarrow> (nextIndex', p', g')))
          else (nextIndex, buf1, g))"

definition refill :: "components \<Rightarrow> nat list \<Rightarrow> rng \<Rightarrow> nat list \<times> rng" where
  "refill cs buf g =
     (let slideLen = getLength cs in
      if length buf < slideLen then
        (case initShuffle cs g of (q, g') \<Rightarrow> (buf @ q, g'))
      else (buf, g))"

definition draw :: "components \<Rightarrow> nat list \<Rightarrow> rng \<Rightarrow> nat option \<times> nat list \<times> rng" where
  "draw cs buf g =
     (case draw_front cs buf g of
        (nextIndex, buf2, g2) \<Rightarrow>
          (case refill cs buf2 g2 of (buf3, g3) \<Rightarrow> (nextIndex, buf3, g3)))"

text \<open>
  The loop itself. It has no bound in the source, so it is a partial function:
  \<open>None\<close> is a loop that never ends.
\<close>

partial_function (option) draw_loop ::
  "components \<Rightarrow> nat list \<Rightarrow> rng \<Rightarrow> (nat option \<times> nat list \<times> rng) option" where
  "draw_loop cs buf g =
     (case draw cs buf g of
        (nextIndex, buf', g') \<Rightarrow>
          if nextIndex = Some (getIndex cs) then draw_loop cs buf' g'
          else Some (nextIndex, buf', g'))"

definition control_of :: "nat option \<Rightarrow> control" where
  "control_of x = (case x of None \<Rightarrow> Undefined | Some i \<Rightarrow> Index i)"

definition onInterval :: "components \<Rightarrow> state \<Rightarrow> state option" where
  "onInterval cs s =
     (case shuffleBuffer s of
        None \<Rightarrow> Some (go (Token ''>'') s)
      | Some buf \<Rightarrow>
          if getLength cs \<le> 2 then Some (go (Token ''>'') s)
          else
            (case draw_loop cs buf (random s) of
               None \<Rightarrow> None
             | Some (nextIndex, buf', g') \<Rightarrow>
                 Some (go (control_of nextIndex)
                         (s\<lparr> shuffleBuffer := Some buf', random := g' \<rparr>))))"

subsection \<open>mount and the listeners\<close>

text \<open>
  \<open>mount()\<close> binds the listeners when the \<open>autoplay\<close> option is set, names the
  track on the toggle button, and starts playing unless the component starts stopped.
\<close>

definition listen :: "state \<Rightarrow> state" where
  "listen s = s\<lparr> listening := True \<rparr>"

definition mount :: "options \<Rightarrow> components \<Rightarrow> string \<Rightarrow> state \<Rightarrow> state" where
  "mount opts cs track_id s =
     (if autoplay opts \<noteq> AutoplayOff then
        (let s1 = listen s;
             s2 = (case toggle s1 of
                     None \<Rightarrow> s1
                   | Some b \<Rightarrow> s1\<lparr> toggle := Some (b\<lparr> aria_controls := Some track_id \<rparr>) \<rparr>);
             s3 = (if stopped s2 then s2 else play opts cs s2)
         in update opts s3)
      else s)"

text \<open>
  What reaches the component from outside: pointer and focus events on the root, a
  click on the toggle button, and the slider's move, scroll and refresh events. Each
  listener runs only if \<open>listen()\<close> has bound it, which for the first two depends
  on an option and for the click on the toggle button being there.
\<close>

datatype incoming =
  Mouseenter | Mouseleave | Focusin | Focusout | Click | Move nat | Scroll | Refresh

fun dispatch :: "unary_plus \<Rightarrow> options \<Rightarrow> components \<Rightarrow> incoming \<Rightarrow> state \<Rightarrow> state" where
  "dispatch toNumber opts cs Mouseenter s =
     (if listening s \<and> pauseOnHover opts then autoToggle opts cs (s\<lparr> hovered := True \<rparr>) else s)"
| "dispatch toNumber opts cs Mouseleave s =
     (if listening s \<and> pauseOnHover opts then autoToggle opts cs (s\<lparr> hovered := False \<rparr>) else s)"
| "dispatch toNumber opts cs Focusin s =
     (if listening s \<and> pauseOnFocus opts then autoToggle opts cs (s\<lparr> focused := True \<rparr>) else s)"
| "dispatch toNumber opts cs Focusout s =
     (if listening s \<and> pauseOnFocus opts then autoToggle opts cs (s\<lparr> focused := False \<rparr>) else s)"
| "dispatch toNumber opts cs Click s =
     (if listening s \<and> toggle s \<noteq> None then
        (if stopped s then play opts cs s else pause opts True s)
      else s)"
| "dispatch toNumber opts cs (Move index) s =
     (if listening s then
        onMove toNumber opts cs index (s\<lparr> timer := timer_rewind (timer s) \<rparr>)
      else s)"
| "dispatch toNumber opts cs Scroll s =
     (if listening s then s\<lparr> timer := timer_rewind (timer s) \<rparr> else s)"
| "dispatch toNumber opts cs Refresh s =
     (if listening s then s\<lparr> timer := timer_rewind (timer s) \<rparr> else s)"

subsection \<open>Notions used in the statements\<close>

text \<open>
  The toggle button agrees with \<open>stopped\<close>: it carries the active class exactly
  when the component is not stopped, and its label is the play label when stopped and
  the pause label otherwise. Without a toggle button there is nothing to agree on.
\<close>

definition toggle_synced :: "options \<Rightarrow> state \<Rightarrow> bool" where
  "toggle_synced opts s =
     (case toggle s of
        None \<Rightarrow> True
      | Some b \<Rightarrow>
          class_active b = (\<not> stopped s) \<and>
          aria_label b = Some (if stopped s then i18n_play opts else i18n_pause opts))"

text \<open>
  A run of the component over incoming events, each with the answers the other
  components give at that moment.
\<close>

definition run ::
  "unary_plus \<Rightarrow> options \<Rightarrow> (components \<times> incoming) list \<Rightarrow> state \<Rightarrow> state" where
  "run toNumber opts evs s = fold (\<lambda>(cs, ev). dispatch toNumber opts cs ev) evs s"

fun hover_or_focus :: "incoming \<Rightarrow> bool" where
  "hover_or_focus Mouseenter = True"
| "hover_or_focus Mouseleave = True"
| "hover_or_focus Focusin = True"
| "hover_or_focus Focusout = True"
| "hover_or_focus _ = False"

text \<open>
  The duration that \<open>onMove\<close> sets according to the specification's wording: the
  slide's override when the slide exists and the attribute is present and numeric, the
  global interval otherwise.
\<close>

definition spec_onMove_time :: "unary_plus \<Rightarrow> options \<Rightarrow> components \<Rightarrow> nat \<Rightarrow> jsnum" where
  "spec_onMove_time toNumber opts cs index =
     (case getAt cs index of
        None \<Rightarrow> interval opts
      | Some Slide \<Rightarrow>
          (case interval_attr Slide of
             None \<Rightarrow> interval opts
           | Some a \<Rightarrow> if toNumber (Some a) \<noteq> NaN then toNumber (Some a) else interval opts))"

text \<open>
  The refill according to the specification's wording, for one pass of the loop: the
  permutation is appended before the buffer is exhausted, never after it has been
  emptied. So the draw finds an entry at the front, and entries remain when the append
  step runs.
\<close>

definition spec_refill_before_exhaustion :: "components \<Rightarrow> nat list \<Rightarrow> rng \<Rightarrow> bool" where
  "spec_refill_before_exhaustion cs buf g =
     (fst (shift buf) \<noteq> None \<and> fst (snd (draw_front cs buf g)) \<noteq> [])"

text \<open>
  A bound on the passes the loop still repeats, for slide count \<open>n\<close> and current
  index \<open>c\<close>: two for every leading copy of \<open>c\<close> in the buffer, and then
  something for what follows them: three if nothing does, one if the next entry is out
  of range, nothing if it is another index.
\<close>

definition retry_measure :: "nat \<Rightarrow> nat \<Rightarrow> nat list \<Rightarrow> nat" where
  "retry_measure n c buf =
     2 * length (takeWhile (\<lambda>x. x = c) buf) +
     (case dropWhile (\<lambda>x. x = c) buf of [] \<Rightarrow> 3 | y # _ \<Rightarrow> if n \<le> y then 1 else 0)"

subsection \<open>Concrete inputs\<close>

text \<open>
  A coercion for the closed instances below. It agrees with JavaScript's unary plus on
  \<open>null\<close> (zero), on the empty string (zero) and on strings of decimal digits
  (their value); every other string used below is non-numeric, and it is sent to
  \<open>NaN\<close>.
\<close>

definition decimal_digits :: "(char \<times> nat) list" where
  "decimal_digits =
     [(CHR ''0'', 0), (CHR ''1'', 1), (CHR ''2'', 2), (CHR ''3'', 3), (CHR ''4'', 4),
      (CHR ''5'', 5), (CHR ''6'', 6), (CHR ''7'', 7), (CHR ''8'', 8), (CHR ''9'', 9)]"

fun digits :: "nat \<Rightarrow> string \<Rightarrow> nat option" where
  "digits acc [] = Some acc"
| "digits acc (c # cs) =
     (case map_of decimal_digits c of
        None \<Rightarrow> None
      | Some d \<Rightarrow> digits (10 * acc + d) cs)"

fun decimal_plus :: unary_plus where
  "decimal_plus None = Num 0"
| "decimal_plus (Some a) = (case digits 0 a of None \<Rightarrow> NaN | Some n \<Rightarrow> Num (of_nat n))"

text \<open>
  Four slides: one whose override is \<open>0\<close>, one with the override \<open>3000\<close>, one
  without the attribute and one whose attribute is not a number.
\<close>

fun four_slides :: "nat \<Rightarrow> slide option" where
  "four_slides i =
     (if i = 0 then Some \<lparr> interval_attr = Some ''0'' \<rparr>
      else if i = 1 then Some \<lparr> interval_attr = Some ''3000'' \<rparr>
      else if i = 2 then Some \<lparr> interval_attr = None \<rparr>
      else if i = 3 then Some \<lparr> interval_attr = Some ''fast'' \<rparr>
      else None)"

definition four_components :: components where
  "four_components = \<lparr> getLength = 4, isEnough = True, getAt = four_slides, getIndex = 0 \<rparr>"

definition shuffle_options :: options where
  "shuffle_options =
     \<lparr> autoplay = AutoplayOn, interval = Num 5000, pauseOnHover = True, pauseOnFocus = True,
       resetProgress = False, autoplayShuffle = True,
       i18n_play = ''Start autoplay'', i18n_pause = ''Pause autoplay'' \<rparr>"

definition plain_button :: toggle_button where
  "plain_button = \<lparr> class_active = False, aria_label = None, aria_controls = None \<rparr>"

text \<open>A random source whose every raw value is zero.\<close>

fun zeros :: rng where
  "zeros i = 0"

definition initial_state :: state where
  "initial_state = Autoplay shuffle_options (Some plain_button) zeros"

section \<open>Properties\<close>

subsection \<open>Permutations\<close>

lemma range_js_eq: "range_js n = [0..<n]"
proof -
  have "range_js n = map (\<lambda>(i, x). i) (zip [0..<n] (replicate n ()))"
    by (simp add: range_js_def map_indexed_def enumerate_eq_zip)
  also have "\<dots> = map fst (zip [0..<n] (replicate n ()))"
    by (rule map_cong) auto
  also have "\<dots> = [0..<n]"
    by (rule map_fst_zip) simp
  finally show ?thesis .
qed

lemma shuffle_loop_mset:
  "index \<le> length arr - 1 \<Longrightarrow> mset (fst (shuffle_loop index arr g)) = mset arr"
proof (induction index arr g rule: shuffle_loop.induct)
  case (1 index arr g)
  show ?case
  proof (cases "0 < index")
    case False
    then show ?thesis by (simp add: shuffle_loop.simps)
  next
    case True
    obtain newIndex g' where r: "random_floor (index + 1) g = (newIndex, g')"
      by (cases "random_floor (index + 1) g")
    then have le: "newIndex \<le> index"
      by (auto simp: random_floor_def)
    let ?arr = "arr[index := arr ! newIndex, newIndex := arr ! index]"
    from True "1.prems" have lt: "index < length arr" by arith
    with le have "mset ?arr = mset arr"
      by (simp add: mset_swap)
    moreover have "mset (fst (shuffle_loop (index - 1) ?arr g')) = mset ?arr"
      using "1.IH"[OF True r[symmetric]] "1.prems" by simp
    ultimately show ?thesis
      using True r by (subst shuffle_loop.simps) simp
  qed
qed

lemma shuffleArray_mset: "mset (fst (shuffleArray arr g)) = mset arr"
  by (simp add: shuffleArray_def shuffle_loop_mset)

lemma initShuffle_mset: "mset (fst (initShuffle cs g)) = mset [0..<getLength cs]"
  by (simp add: initShuffle_def shuffleArray_mset range_js_eq)

lemma shuffle_loop_store_eq:
  "arr < length h \<Longrightarrow>
   shuffle_loop_store index arr h g =
     (h[arr := fst (shuffle_loop index (h ! arr) g)], snd (shuffle_loop index (h ! arr) g))"
proof (induction index arr h g rule: shuffle_loop_store.induct)
  case (1 index arr h g)
  show ?case
  proof (cases "0 < index")
    case False
    then show ?thesis
      by (simp add: shuffle_loop_store.simps shuffle_loop.simps)
  next
    case True
    obtain newIndex g' where r: "random_floor (index + 1) g = (newIndex, g')"
      by (cases "random_floor (index + 1) g")
    let ?a = "(h ! arr)[index := h ! arr ! newIndex, newIndex := h ! arr ! index]"
    have L: "shuffle_loop_store index arr h g = shuffle_loop_store (index - 1) arr (h[arr := ?a]) g'"
      using True r by (subst shuffle_loop_store.simps) simp
    have R: "shuffle_loop index (h ! arr) g = shuffle_loop (index - 1) ?a g'"
      using True r by (subst shuffle_loop.simps) simp
    show ?thesis
      using "1.IH"[OF True r[symmetric]] "1.prems" by (simp add: L R)
  qed
qed

lemma shuffleArray_store_eq:
  "arr < length h \<Longrightarrow>
   shuffleArray_store arr h g =
     (length h, h @ [fst (shuffleArray (h ! arr) g)], snd (shuffleArray (h ! arr) g))"
  by (simp add: shuffleArray_store_def shuffleArray_def shuffle_loop_store_eq Let_def)

subsection \<open>The draw loop\<close>

lemma initShuffle_perm:
  "initShuffle cs g = (p, g') \<Longrightarrow>
   mset p = mset [0..<getLength cs] \<and> length p = getLength cs \<and> distinct p \<and>
   set p = {0..<getLength cs}"
proof -
  assume "initShuffle cs g = (p, g')"
  then have m: "mset p = mset [0..<getLength cs]"
    using initShuffle_mset [of cs g] by simp
  have "length p = getLength cs"
    using mset_eq_length [OF m] by simp
  moreover have "distinct p"
    using mset_eq_imp_distinct_iff [OF m] by simp
  moreover have "set p = {0..<getLength cs}"
    using mset_eq_setD [OF m] by simp
  ultimately show ?thesis using m by simp
qed

lemma draw_regen:
  assumes "0 < getLength cs" and "buf = [] \<or> getLength cs \<le> hd buf"
    and "initShuffle cs g = (p, g1)" and "initShuffle cs g1 = (q, g2)"
  shows "draw cs buf g = (Some (hd p), tl p @ q, g2)"
proof -
  have "length p = getLength cs"
    using initShuffle_perm [OF assms(3)] by simp
  with assms(1) obtain x p' where p: "p = x # p'" "length p' < getLength cs"
    by (cases p) auto
  show ?thesis
    using assms(2-4) p by (cases buf) (simp_all add: draw_def draw_front_def refill_def)
qed

lemma draw_keep:
  assumes "y < getLength cs"
  shows "draw cs (y # t) g =
           (if length t < getLength cs
            then (Some y, t @ fst (initShuffle cs g), snd (initShuffle cs g))
            else (Some y, t, g))"
  using assms by (simp add: draw_def draw_front_def refill_def split: prod.splits)

lemma retry_measure_Cons_same: "retry_measure n c (c # t) = 2 + retry_measure n c t"
  by (simp add: retry_measure_def)

lemma retry_measure_Cons_other:
  "y \<noteq> c \<Longrightarrow> y < n \<Longrightarrow> retry_measure n c (y # t) = 0"
  by (simp add: retry_measure_def)

lemma retry_measure_perm:
  assumes "distinct q" and "set q = {0..<n}" and "2 \<le> length q"
  shows "retry_measure n c q \<le> 2"
proof -
  from assms(3) obtain a b q' where q: "q = a # b # q'"
    by (cases q; cases "tl q") auto
  have "a < n" "b < n" "a \<noteq> b"
    using assms(1,2) q by auto
  then show ?thesis
    unfolding q by (simp add: retry_measure_def)
qed

lemma retry_measure_append:
  assumes "distinct q" and "set q = {0..<n}" and "2 \<le> length q"
  shows "retry_measure n c (t @ q) \<le> retry_measure n c t"
proof (cases "\<forall>x \<in> set t. x = c")
  case True
  then have f: "takeWhile (\<lambda>x. x = c) (t @ q) = t @ takeWhile (\<lambda>x. x = c) q"
    "dropWhile (\<lambda>x. x = c) (t @ q) = dropWhile (\<lambda>x. x = c) q"
    "takeWhile (\<lambda>x. x = c) t = t" "dropWhile (\<lambda>x. x = c) t = []"
    by (simp_all add: takeWhile_append2 dropWhile_append2)
  have "retry_measure n c (t @ q) = 2 * length t + retry_measure n c q"
    unfolding retry_measure_def f by simp
  moreover have "retry_measure n c t = 2 * length t + 3"
    unfolding retry_measure_def f by simp
  ultimately show ?thesis
    using retry_measure_perm [OF assms, of c] by simp
next
  case False
  then obtain x where x: "x \<in> set t" "x \<noteq> c" by blast
  then have tk: "takeWhile (\<lambda>x. x = c) (t @ q) = takeWhile (\<lambda>x. x = c) t"
    and dr: "dropWhile (\<lambda>x. x = c) (t @ q) = dropWhile (\<lambda>x. x = c) t @ q"
    by (simp_all add: takeWhile_append1 dropWhile_append1)
  have "dropWhile (\<lambda>x. x = c) t \<noteq> []"
    using x by (auto simp: dropWhile_eq_Nil_conv)
  then obtain y r where "dropWhile (\<lambda>x. x = c) t = y # r"
    by (cases "dropWhile (\<lambda>x. x = c) t") auto
  then show ?thesis
    by (simp add: retry_measure_def tk dr)
qed

lemma draw_decreases:
  assumes n: "2 \<le> getLength cs"
    and d: "draw cs buf g = (Some (getIndex cs), buf', g')"
  shows "retry_measure (getLength cs) (getIndex cs) buf'
           < retry_measure (getLength cs) (getIndex cs) buf"
proof -
  let ?n = "getLength cs" and ?c = "getIndex cs"
  obtain p g1 where p: "initShuffle cs g = (p, g1)"
    by (cases "initShuffle cs g")
  obtain q g2 where q: "initShuffle cs g1 = (q, g2)"
    by (cases "initShuffle cs g1")
  note pp = initShuffle_perm [OF p] and qq = initShuffle_perm [OF q]
  show ?thesis
  proof (cases "buf = [] \<or> ?n \<le> hd buf")
    case True
    from n have "0 < ?n" by simp
    from draw_regen [OF this True p q] d
    have c: "hd p = ?c" and b: "buf' = tl p @ q" by simp_all
    from pp n obtain a y p' where p': "p = a # y # p'"
      by (cases p; cases "tl p") auto
    with pp c have "y \<noteq> ?c" "y < ?n" "?c < ?n" by auto
    then have "retry_measure ?n ?c buf' = 0"
      unfolding b p' by (simp add: retry_measure_Cons_other)
    moreover have "0 < retry_measure ?n ?c buf"
      using True \<open>?c < ?n\<close> by (cases buf) (auto simp: retry_measure_def)
    ultimately show ?thesis by simp
  next
    case False
    then obtain y t where buf: "buf = y # t" and y: "y < ?n"
      by (cases buf) auto
    from d draw_keep [OF y, of t g] p
    have c: "y = ?c" and b: "buf' = (if length t < ?n then t @ p else t)"
      unfolding buf by (simp_all split: if_splits)
    have "retry_measure ?n ?c buf' \<le> retry_measure ?n ?c t"
      using retry_measure_append [of p ?n ?c t] pp n by (simp add: b)
    then show ?thesis
      unfolding buf c by (simp add: retry_measure_Cons_same)
  qed
qed

lemma draw_result:
  assumes n: "0 < getLength cs" and d: "draw cs buf g = (x, buf', g')"
  shows "(\<exists>i. x = Some i \<and> i < getLength cs) \<and> getLength cs \<le> length buf'"
proof -
  let ?n = "getLength cs"
  obtain p g1 where p: "initShuffle cs g = (p, g1)"
    by (cases "initShuffle cs g")
  obtain q g2 where q: "initShuffle cs g1 = (q, g2)"
    by (cases "initShuffle cs g1")
  note pp = initShuffle_perm [OF p] and qq = initShuffle_perm [OF q]
  show ?thesis
  proof (cases "buf = [] \<or> ?n \<le> hd buf")
    case True
    from draw_regen [OF n True p q] d
    have x: "x = Some (hd p)" and b: "buf' = tl p @ q" by simp_all
    from pp n have "p \<noteq> []" by auto
    then have "hd p \<in> set p" by simp
    with pp have "hd p < ?n" by simp
    then show ?thesis using x b qq by simp
  next
    case False
    then obtain y t where buf: "buf = y # t" and y: "y < ?n"
      by (cases buf) auto
    from d draw_keep [OF y, of t g] p
    have "x = Some y" and "buf' = (if length t < ?n then t @ p else t)"
      unfolding buf by (simp_all split: if_splits)
    then show ?thesis using y pp by simp
  qed
qed

lemma draw_loop_total:
  assumes n: "2 \<le> getLength cs"
  shows "\<exists>i buf' g'. draw_loop cs buf g = Some (Some i, buf', g') \<and>
           i \<noteq> getIndex cs \<and> i < getLength cs \<and> getLength cs \<le> length buf'"
proof (induction "retry_measure (getLength cs) (getIndex cs) buf" arbitrary: buf g
         rule: less_induct)
  case less
  obtain x buf1 g1 where d: "draw cs buf g = (x, buf1, g1)"
    by (cases "draw cs buf g")
  from n have "0 < getLength cs" by simp
  from draw_result [OF this d] obtain i where
    i: "x = Some i" "i < getLength cs" "getLength cs \<le> length buf1"
    by blast
  show ?case
  proof (cases "i = getIndex cs")
    case True
    with d i have "draw cs buf g = (Some (getIndex cs), buf1, g1)" by simp
    from draw_decreases [OF n this] less [of buf1 g1]
    obtain j buf' g' where "draw_loop cs buf1 g1 = Some (Some j, buf', g')"
      "j \<noteq> getIndex cs" "j < getLength cs" "getLength cs \<le> length buf'"
      by blast
    moreover have "draw_loop cs buf g = draw_loop cs buf1 g1"
      using d i True by (subst draw_loop.simps) simp
    ultimately show ?thesis by simp
  next
    case False
    have "draw_loop cs buf g = Some (Some i, buf1, g1)"
      using d i False by (subst draw_loop.simps) simp
    with i False show ?thesis by simp
  qed
qed

subsection \<open>Evaluation at the concrete inputs\<close>

lemma zeros_tail: "(\<lambda>i. 0) = zeros"
  by (simp add: fun_eq_iff)

lemma initShuffle_four: "initShuffle four_components zeros = ([1, 2, 3, 0], zeros)"
  by (simp add: initShuffle_def shuffleArray_def range_js_eq four_components_def
        shuffle_loop.simps random_floor_def upt_conv_Cons zeros_tail)

lemma getLength_four: "getLength four_components = 4"
  by (simp add: four_components_def)

lemma getIndex_four: "getIndex four_components = 0"
  by (simp add: four_components_def)

lemma draw_four_empty:
  "draw four_components [] zeros = (Some 1, [2, 3, 0, 1, 2, 3, 0], zeros)"
  by (simp add: draw_def draw_front_def refill_def initShuffle_four getLength_four)

lemma draw_loop_four_empty:
  "draw_loop four_components [] zeros = Some (Some 1, [2, 3, 0, 1, 2, 3, 0], zeros)"
  by (subst draw_loop.simps) (simp add: draw_four_empty getIndex_four)

lemma onInterval_initial:
  "onInterval four_components initial_state =
     Some (initial_state\<lparr> shuffleBuffer := Some [2, 3, 0, 1, 2, 3, 0],
                           trace := [Go (Index 1)] \<rparr>)"
  by (simp add: onInterval_def initial_state_def Autoplay_def shuffle_options_def
        getLength_four draw_loop_four_empty go_def control_of_def)

subsection \<open>Hover and focus while stopped\<close>

lemma dispatch_stopped:
  "stopped s \<Longrightarrow> hover_or_focus ev \<Longrightarrow>
   \<exists>h f. dispatch toNumber opts cs ev s = s\<lparr> hovered := h, focused := f \<rparr>"
proof (cases ev)
  case Mouseenter
  assume "stopped s"
  then have "dispatch toNumber opts cs ev s = s\<lparr> hovered := hovered s, focused := focused s \<rparr>
     \<or> dispatch toNumber opts cs ev s = s\<lparr> hovered := True, focused := focused s \<rparr>"
    using Mouseenter by (simp add: autoToggle_def)
  then show ?thesis by blast
next
  case Mouseleave
  assume "stopped s"
  then have "dispatch toNumber opts cs ev s = s\<lparr> hovered := hovered s, focused := focused s \<rparr>
     \<or> dispatch toNumber opts cs ev s = s\<lparr> hovered := False, focused := focused s \<rparr>"
    using Mouseleave by (simp add: autoToggle_def)
  then show ?thesis by blast
next
  case Focusin
  assume "stopped s"
  then have "dispatch toNumber opts cs ev s = s\<lparr> hovered := hovered s, focused := focused s \<rparr>
     \<or> dispatch toNumber opts cs ev s = s\<lparr> hovered := hovered s, focused := True \<rparr>"
    using Focusin by (simp add: autoToggle_def)
  then show ?thesis by blast
next
  case Focusout
  assume "stopped s"
  then have "dispatch toNumber opts cs ev s = s\<lparr> hovered := hovered s, focused := focused s \<rparr>
     \<or> dispatch toNumber opts cs ev s = s\<lparr> hovered := hovered s, focused := False \<rparr>"
    using Focusout by (simp add: autoToggle_def)
  then show ?thesis by blast
qed simp_all

lemma run_stopped:
  "stopped s \<Longrightarrow> \<forall>x \<in> set evs. hover_or_focus (snd x) \<Longrightarrow>
   \<exists>h f. run toNumber opts evs s = s\<lparr> hovered := h, focused := f \<rparr>"
proof (induction evs arbitrary: s)
  case Nil
  have "s = s\<lparr> hovered := hovered s, focused := focused s \<rparr>" by simp
  then show ?case unfolding run_def by (metis fold_simps(1))
next
  case (Cons x evs)
  obtain cs ev where x: "x = (cs, ev)" by (cases x)
  with Cons.prems obtain h f where
    d: "dispatch toNumber opts cs ev s = s\<lparr> hovered := h, focused := f \<rparr>"
    using dispatch_stopped [of s ev toNumber opts cs] by auto
  let ?s1 = "s\<lparr> hovered := h, focused := f \<rparr>"
  have "stopped ?s1" using Cons.prems by simp
  moreover have "\<forall>x \<in> set evs. hover_or_focus (snd x)" using Cons.prems by simp
  ultimately obtain h' f' where "run toNumber opts evs ?s1 = ?s1\<lparr> hovered := h', focused := f' \<rparr>"
    using Cons.IH by blast
  then have "run toNumber opts (x # evs) s = s\<lparr> hovered := h', focused := f' \<rparr>"
    using d x by (simp add: run_def)
  then show ?case by blast
qed

section \<open>The claims\<close>

text \<open>
  C1. A manual stop has precedence over hover and focus. In a stopped component
  \<open>autoToggle()\<close> changes nothing, and a run of pointer and focus events changes
  nothing but the two flags \<open>hovered\<close> and \<open>focused\<close>: the component stays
  stopped, the timer is not touched (so it is not started), nothing is emitted, and
  \<open>autoToggle()\<close> still changes nothing afterwards. Playing resumes by a call of
  \<open>play()\<close>: from the state reached, with the timer paused and enough slides,
  \<open>play()\<close> starts the timer and clears \<open>stopped\<close>; and an incoming event
  after which the paused timer of a stopped component runs has done what \<open>play()\<close>
  does.
\<close>

theorem stopped_wins:
  assumes "stopped s" and "\<forall>x \<in> set evs. hover_or_focus (snd x)"
  shows "autoToggle opts cs s = s \<and>
         stopped (run toNumber opts evs s) \<and>
         timer (run toNumber opts evs s) = timer s \<and>
         trace (run toNumber opts evs s) = trace s \<and>
         toggle (run toNumber opts evs s) = toggle s \<and>
         shuffleBuffer (run toNumber opts evs s) = shuffleBuffer s \<and>
         autoToggle opts cs (run toNumber opts evs s) = run toNumber opts evs s \<and>
         (isPaused s \<and> isEnough cs \<longrightarrow>
            \<not> isPaused (play opts cs (run toNumber opts evs s)) \<and>
            \<not> stopped (play opts cs (run toNumber opts evs s))) \<and>
         (isPaused s \<and> \<not> isPaused (dispatch toNumber opts cs ev s) \<longrightarrow>
            dispatch toNumber opts cs ev s = play opts cs s)"
proof -
  obtain h f where r: "run toNumber opts evs s = s\<lparr> hovered := h, focused := f \<rparr>"
    using run_stopped [OF assms] by blast
  have "dispatch toNumber opts cs ev s = play opts cs s"
    if "isPaused s" and "\<not> isPaused (dispatch toNumber opts cs ev s)"
    using that assms(1)
    by (cases ev)
      (auto simp: autoToggle_def isPaused_def onMove_def timer_rewind_def timer_set_def
         split: if_splits)
  then show ?thesis
    using assms(1)
    by (simp add: r autoToggle_def play_def isPaused_def emit_def update_def timer_start_def
          split: option.splits)
qed

theorem stopped_wins_witness:
  "stopped (pause shuffle_options True (mount shuffle_options four_components ''track'' initial_state)) \<and>
   hover_or_focus Mouseenter \<and> hover_or_focus Focusin \<and> hover_or_focus Mouseleave \<and>
   focused (run decimal_plus shuffle_options
              [(four_components, Mouseenter), (four_components, Focusin),
               (four_components, Mouseleave)]
              (pause shuffle_options True
                 (mount shuffle_options four_components ''track'' initial_state))) \<and>
   isPaused (run decimal_plus shuffle_options
              [(four_components, Mouseenter), (four_components, Focusin),
               (four_components, Mouseleave)]
              (pause shuffle_options True
                 (mount shuffle_options four_components ''track'' initial_state))) \<and>
   trace (run decimal_plus shuffle_options
              [(four_components, Mouseenter), (four_components, Focusin),
               (four_components, Mouseleave)]
              (pause shuffle_options True
                 (mount shuffle_options four_components ''track'' initial_state))) =
     [Emit EVENT_AUTOPLAY_PLAY, Emit EVENT_AUTOPLAY_PAUSE] \<and>
   dispatch decimal_plus shuffle_options four_components Click
     (pause shuffle_options True (mount shuffle_options four_components ''track'' initial_state))
     = play shuffle_options four_components
         (pause shuffle_options True
            (mount shuffle_options four_components ''track'' initial_state)) \<and>
   isEnough four_components \<and>
   \<not> isPaused (play shuffle_options four_components
      (run decimal_plus shuffle_options
              [(four_components, Mouseenter), (four_components, Focusin),
               (four_components, Mouseleave)]
              (pause shuffle_options True
                 (mount shuffle_options four_components ''track'' initial_state))))"
proof -
  let ?m = "mount shuffle_options four_components ''track'' initial_state"
  let ?s = "pause shuffle_options True ?m"
  let ?evs = "[(four_components, Mouseenter), (four_components, Focusin),
               (four_components, Mouseleave)]"
  have m: "?m = initial_state
      \<lparr> timer := \<lparr> paused = False, timer_interval = Num 5000, rate = 0 \<rparr>,
        toggle := Some \<lparr> class_active = True, aria_label = Some ''Pause autoplay'',
                          aria_controls = Some ''track'' \<rparr>,
        listening := True,
        trace := [Emit EVENT_AUTOPLAY_PLAY] \<rparr>"
    by (simp add: mount_def listen_def play_def update_def emit_def isPaused_def
          timer_start_def initial_state_def Autoplay_def RequestInterval_def
          shuffle_options_def four_components_def plain_button_def)
  have s: "?s = initial_state
      \<lparr> stopped := True,
        timer := \<lparr> paused = True, timer_interval = Num 5000, rate = 0 \<rparr>,
        toggle := Some \<lparr> class_active = False, aria_label = Some ''Start autoplay'',
                          aria_controls = Some ''track'' \<rparr>,
        listening := True,
        trace := [Emit EVENT_AUTOPLAY_PLAY, Emit EVENT_AUTOPLAY_PAUSE] \<rparr>"
    unfolding m
    by (simp add: pause_def update_def emit_def isPaused_def timer_pause_def
          initial_state_def Autoplay_def shuffle_options_def)
  have a: "stopped ?s" unfolding s by simp
  have b: "\<forall>x \<in> set ?evs. hover_or_focus (snd x)" by simp
  have c: "focused (run decimal_plus shuffle_options ?evs ?s)"
    unfolding s by (simp add: run_def autoToggle_def shuffle_options_def)
  have d: "isPaused ?s" unfolding s by (simp add: isPaused_def)
  have e: "trace ?s = [Emit EVENT_AUTOPLAY_PLAY, Emit EVENT_AUTOPLAY_PAUSE]"
    unfolding s by simp
  have f: "\<not> isPaused (dispatch decimal_plus shuffle_options four_components Click ?s)"
    unfolding s
    by (simp add: play_def isPaused_def emit_def update_def timer_start_def
          four_components_def initial_state_def Autoplay_def)
  note w = stopped_wins [OF a b, of shuffle_options four_components decimal_plus Click]
  from w d f have g: "dispatch decimal_plus shuffle_options four_components Click ?s
                        = play shuffle_options four_components ?s"
    by blast
  show ?thesis
    using a b c d e g w
    by (simp add: isPaused_def four_components_def)
qed

text \<open>
  C2. A tick with shuffling on and more than two slides terminates and passes to
  \<open>Splide.go\<close> an index below the slide count that is not the current index.
  With shuffling off, or with at most two slides, the tick passes \<open>'>'\<close> and
  leaves the buffer and the random source as they are: nothing is drawn.
\<close>

theorem onInterval_navigation:
  "(shuffleBuffer s \<noteq> None \<and> 2 < getLength cs \<longrightarrow>
      (\<exists>s' i. onInterval cs s = Some s' \<and> trace s' = trace s @ [Go (Index i)] \<and>
               i < getLength cs \<and> i \<noteq> getIndex cs)) \<and>
   (shuffleBuffer s = None \<or> getLength cs \<le> 2 \<longrightarrow>
      onInterval cs s = Some (s\<lparr> trace := trace s @ [Go (Token ''>'')] \<rparr>))"
proof (intro conjI impI)
  assume a: "shuffleBuffer s \<noteq> None \<and> 2 < getLength cs"
  then obtain buf where buf: "shuffleBuffer s = Some buf" by blast
  from a have "2 \<le> getLength cs" by simp
  from draw_loop_total [OF this, of buf "random s"] obtain i buf' g' where
    l: "draw_loop cs buf (random s) = Some (Some i, buf', g')"
    and i: "i \<noteq> getIndex cs" "i < getLength cs"
    by blast
  have "onInterval cs s =
          Some (go (Index i) (s\<lparr> shuffleBuffer := Some buf', random := g' \<rparr>))"
    using a buf l by (simp add: onInterval_def control_of_def)
  then show "\<exists>s' i. onInterval cs s = Some s' \<and> trace s' = trace s @ [Go (Index i)] \<and>
               i < getLength cs \<and> i \<noteq> getIndex cs"
    using i by (simp add: go_def)
next
  assume "shuffleBuffer s = None \<or> getLength cs \<le> 2"
  then show "onInterval cs s = Some (s\<lparr> trace := trace s @ [Go (Token ''>'')] \<rparr>)"
    by (auto simp: onInterval_def go_def split: option.splits)
qed

theorem onInterval_navigation_witness:
  "shuffleBuffer initial_state \<noteq> None \<and> 2 < getLength four_components \<and>
   getIndex four_components = 0 \<and>
   map_option trace (onInterval four_components initial_state) = Some [Go (Index 1)] \<and>
   getLength (four_components\<lparr> getLength := 2 \<rparr>) \<le> 2 \<and>
   onInterval (four_components\<lparr> getLength := 2 \<rparr>) initial_state
     = Some (initial_state\<lparr> trace := [Go (Token ''>'')] \<rparr>)"
proof -
  have a: "shuffleBuffer initial_state \<noteq> None"
    by (simp add: initial_state_def Autoplay_def shuffle_options_def)
  have b: "trace initial_state = []"
    by (simp add: initial_state_def Autoplay_def)
  show ?thesis
    using a onInterval_navigation [of initial_state four_components]
      onInterval_navigation [of initial_state "four_components\<lparr> getLength := 2 \<rparr>"]
    by (simp add: b getLength_four getIndex_four onInterval_initial)
qed

text \<open>
  C3. When the timer is running or the slides are not enough, \<open>play()\<close> returns
  the state as it is: flags, timer and trace are unchanged, so nothing is emitted.
  Otherwise it starts the timer (keeping the progress unless \<open>resetProgress\<close> is
  set), clears \<open>stopped\<close>, \<open>hovered\<close> and \<open>focused\<close>, leaves the toggle
  button in agreement with \<open>stopped\<close>, and emits the play event once.
\<close>

theorem play_guarded:
  "(\<not> isPaused s \<or> \<not> isEnough cs \<longrightarrow> play opts cs s = s) \<and>
   (isPaused s \<and> isEnough cs \<longrightarrow>
      \<not> isPaused (play opts cs s) \<and>
      rate (timer (play opts cs s)) = (if resetProgress opts then 0 else rate (timer s)) \<and>
      \<not> stopped (play opts cs s) \<and> \<not> hovered (play opts cs s) \<and> \<not> focused (play opts cs s) \<and>
      toggle_synced opts (play opts cs s) \<and>
      trace (play opts cs s) = trace s @ [Emit EVENT_AUTOPLAY_PLAY])"
  by (auto simp: play_def isPaused_def emit_def update_def timer_start_def toggle_synced_def
           split: option.splits)

theorem play_guarded_witness:
  "isPaused initial_state \<and> isEnough four_components \<and>
   \<not> isPaused (play shuffle_options four_components initial_state) \<and>
   trace (play shuffle_options four_components initial_state) = [Emit EVENT_AUTOPLAY_PLAY] \<and>
   play shuffle_options (four_components\<lparr> isEnough := False \<rparr>) initial_state = initial_state"
proof -
  have a: "isPaused initial_state"
    by (simp add: initial_state_def Autoplay_def isPaused_def RequestInterval_def)
  have b: "isEnough four_components"
    by (simp add: four_components_def)
  have c: "trace initial_state = []"
    by (simp add: initial_state_def Autoplay_def)
  show ?thesis
    using a b c play_guarded [of initial_state four_components shuffle_options]
      play_guarded [of initial_state "four_components\<lparr> isEnough := False \<rparr>" shuffle_options]
    by simp
qed

text \<open>
  C4. For either value of \<open>stop\<close>, \<open>pause(stop)\<close> sets \<open>stopped\<close> to
  it and leaves the toggle button in agreement with \<open>stopped\<close>, whatever the timer
  did. If the timer was running it is paused and the pause event is emitted once; if it
  was paused already, timer and trace are unchanged. So the pause event is among the
  effects of the call exactly when the timer was running.
\<close>

theorem pause_sets_stopped:
  "stopped (pause opts stop s) = stop \<and>
   toggle_synced opts (pause opts stop s) \<and>
   isPaused (pause opts stop s) \<and>
   (\<not> isPaused s \<longrightarrow>
      timer (pause opts stop s) = timer_pause (timer s) \<and>
      trace (pause opts stop s) = trace s @ [Emit EVENT_AUTOPLAY_PAUSE]) \<and>
   (isPaused s \<longrightarrow>
      timer (pause opts stop s) = timer s \<and> trace (pause opts stop s) = trace s) \<and>
   (Emit EVENT_AUTOPLAY_PAUSE \<in> set (drop (length (trace s)) (trace (pause opts stop s))))
     = (\<not> isPaused s)"
  by (auto simp: pause_def isPaused_def emit_def update_def timer_pause_def toggle_synced_def
           Let_def split: option.splits)

theorem pause_sets_stopped_witness:
  "\<not> isPaused (play shuffle_options four_components initial_state) \<and>
   trace (pause shuffle_options True (play shuffle_options four_components initial_state)) =
     [Emit EVENT_AUTOPLAY_PLAY, Emit EVENT_AUTOPLAY_PAUSE] \<and>
   isPaused initial_state \<and>
   stopped (pause shuffle_options True initial_state) \<and>
   trace (pause shuffle_options True initial_state) = []"
proof -
  let ?s = "play shuffle_options four_components initial_state"
  have a: "isPaused initial_state"
    by (simp add: initial_state_def Autoplay_def isPaused_def RequestInterval_def)
  have b: "trace initial_state = []"
    by (simp add: initial_state_def Autoplay_def)
  have c: "\<not> isPaused ?s"
    by (simp add: play_def a four_components_def isPaused_def emit_def update_def
          timer_start_def split: option.splits)
  have d: "trace ?s = [Emit EVENT_AUTOPLAY_PLAY]"
    by (simp add: play_def a b four_components_def emit_def update_def split: option.splits)
  show ?thesis
    using a b c d pause_sets_stopped [of shuffle_options True ?s]
      pause_sets_stopped [of shuffle_options True initial_state]
    by simp
qed

text \<open>
  C5. As stated, the refill comes before the buffer is exhausted and never after it
  has been emptied. The component is created with an empty buffer when
  \<open>autoplayShuffle\<close> is set, and in its first tick the draw finds nothing at the
  front and only then generates a permutation. And a buffer of one entry, as
  \<open>shuffle(true)\<close> makes it while there is a single slide, is emptied by the draw
  of a later tick before the permutation is appended.
\<close>

theorem refill_before_exhaustion_counterexample:
  "shuffleBuffer initial_state = Some [] \<and>
   \<not> spec_refill_before_exhaustion four_components [] zeros \<and>
   draw four_components [] zeros = (Some 1, [2, 3, 0, 1, 2, 3, 0], zeros) \<and>
   shuffleBuffer
     (shuffle (four_components\<lparr> getLength := 1 \<rparr>) True
        (shuffle four_components False initial_state)) = Some [0] \<and>
   \<not> spec_refill_before_exhaustion four_components [0] zeros \<and>
   draw_front four_components [0] zeros = (Some 0, [], zeros) \<and>
   draw four_components [0] zeros = (Some 0, [1, 2, 3, 0], zeros)"
proof -
  have a: "shuffleBuffer initial_state = Some []"
    by (simp add: initial_state_def Autoplay_def shuffle_options_def)
  have b: "\<not> spec_refill_before_exhaustion four_components [] zeros"
    by (simp add: spec_refill_before_exhaustion_def)
  have i: "initShuffle (four_components\<lparr> getLength := Suc 0 \<rparr>) zeros = ([0], zeros)"
    by (simp add: initShuffle_def shuffleArray_def range_js_eq shuffle_loop.simps)
  have c: "shuffleBuffer
     (shuffle (four_components\<lparr> getLength := 1 \<rparr>) True
        (shuffle four_components False initial_state)) = Some [0]"
    by (simp add: shuffle_def a i initial_state_def Autoplay_def)
  have f: "draw_front four_components [0] zeros = (Some 0, [], zeros)"
    by (simp add: draw_front_def getLength_four)
  have d: "\<not> spec_refill_before_exhaustion four_components [0] zeros"
    by (simp add: spec_refill_before_exhaustion_def f)
  have e: "draw four_components [0] zeros = (Some 0, [1, 2, 3, 0], zeros)"
    by (simp add: draw_def f refill_def getLength_four initShuffle_four)
  from a b c d e f draw_four_empty show ?thesis
    by blast
qed

text \<open>
  C5, amended. With more than two slides, every pass of the loop appends a new
  permutation of the slide indices exactly when fewer entries than the slide count
  remain after the draw, so a pass, and with it a tick, leaves at least as many entries
  as there are slides. A buffer of at least two entries, as every tick leaves one, is
  neither found empty by the draw nor emptied before the append. An empty buffer is
  replaced by a new permutation, whose front is the value drawn.
\<close>

theorem refill_keeps_slideCount:
  assumes "2 < getLength cs"
  shows "(\<exists>x rest g1 q g2.
            draw_front cs buf g = (x, rest, g1) \<and> initShuffle cs g1 = (q, g2) \<and>
            mset q = mset [0..<getLength cs] \<and>
            draw cs buf g =
              (if length rest < getLength cs then (x, rest @ q, g2) else (x, rest, g1)) \<and>
            getLength cs \<le> length (fst (snd (draw cs buf g)))) \<and>
         (shuffleBuffer s = Some buf \<longrightarrow>
            (\<exists>s' buf'. onInterval cs s = Some s' \<and> shuffleBuffer s' = Some buf' \<and>
                        getLength cs \<le> length buf')) \<and>
         (2 \<le> length buf \<longrightarrow> spec_refill_before_exhaustion cs buf g) \<and>
         (buf = [] \<longrightarrow>
            draw_front cs buf g =
              (Some (hd (fst (initShuffle cs g))), tl (fst (initShuffle cs g)),
               snd (initShuffle cs g)))"
proof (intro conjI impI)
  obtain x rest g1 where f: "draw_front cs buf g = (x, rest, g1)"
    by (cases "draw_front cs buf g")
  obtain q g2 where q: "initShuffle cs g1 = (q, g2)"
    by (cases "initShuffle cs g1")
  have d: "draw cs buf g =
             (if length rest < getLength cs then (x, rest @ q, g2) else (x, rest, g1))"
    by (simp add: draw_def refill_def f q)
  have "getLength cs \<le> length (fst (snd (draw cs buf g)))"
    using initShuffle_perm [OF q] by (simp add: d)
  with f q d initShuffle_perm [OF q]
  show "\<exists>x rest g1 q g2.
            draw_front cs buf g = (x, rest, g1) \<and> initShuffle cs g1 = (q, g2) \<and>
            mset q = mset [0..<getLength cs] \<and>
            draw cs buf g =
              (if length rest < getLength cs then (x, rest @ q, g2) else (x, rest, g1)) \<and>
            getLength cs \<le> length (fst (snd (draw cs buf g)))"
    by blast
next
  assume buf: "shuffleBuffer s = Some buf"
  from assms have "2 \<le> getLength cs" by simp
  from draw_loop_total [OF this, of buf "random s"] obtain i buf' g' where
    l: "draw_loop cs buf (random s) = Some (Some i, buf', g')"
    and n: "getLength cs \<le> length buf'"
    by blast
  have "onInterval cs s =
          Some (go (Index i) (s\<lparr> shuffleBuffer := Some buf', random := g' \<rparr>))"
    using assms buf l by (simp add: onInterval_def control_of_def)
  then show "\<exists>s' buf'. onInterval cs s = Some s' \<and> shuffleBuffer s' = Some buf' \<and>
                        getLength cs \<le> length buf'"
    using n by (simp add: go_def)
next
  assume l: "2 \<le> length buf"
  then obtain y z t where buf: "buf = y # z # t"
    by (cases buf; cases "tl buf") auto
  obtain p g1 where p: "initShuffle cs g = (p, g1)"
    by (cases "initShuffle cs g")
  from initShuffle_perm [OF p] assms obtain a b p' where "p = a # b # p'"
    by (cases p; cases "tl p") auto
  then show "spec_refill_before_exhaustion cs buf g"
    by (simp add: spec_refill_before_exhaustion_def draw_front_def buf p)
next
  assume "buf = []"
  then show "draw_front cs buf g =
              (Some (hd (fst (initShuffle cs g))), tl (fst (initShuffle cs g)),
               snd (initShuffle cs g))"
    using assms initShuffle_perm [of cs g "fst (initShuffle cs g)" "snd (initShuffle cs g)"]
    by (cases "fst (initShuffle cs g)") (auto simp: draw_front_def split: prod.splits)
qed

theorem refill_keeps_slideCount_witness:
  "2 < getLength four_components \<and>
   shuffleBuffer initial_state = Some [] \<and>
   map_option shuffleBuffer (onInterval four_components initial_state)
     = Some (Some [2, 3, 0, 1, 2, 3, 0]) \<and>
   2 \<le> length [2, 3, 0, 1, 2, 3, 0 :: nat] \<and>
   spec_refill_before_exhaustion four_components [2, 3, 0, 1, 2, 3, 0] zeros \<and>
   draw_front four_components [] zeros = (Some 1, [2, 3, 0], zeros)"
proof -
  have a: "2 < getLength four_components"
    by (simp add: getLength_four)
  have b: "shuffleBuffer initial_state = Some []"
    by (simp add: initial_state_def Autoplay_def shuffle_options_def)
  have c: "2 \<le> length [2, 3, 0, 1, 2, 3, 0 :: nat]"
    by simp
  note w = refill_keeps_slideCount [OF a, of "[2, 3, 0, 1, 2, 3, 0]" zeros initial_state]
  note e = refill_keeps_slideCount [OF a, of "[]" zeros initial_state]
  from w c have d: "spec_refill_before_exhaustion four_components [2, 3, 0, 1, 2, 3, 0] zeros"
    by blast
  from e have f: "draw_front four_components [] zeros = (Some 1, [2, 3, 0], zeros)"
    by (simp add: initShuffle_four)
  from a b c d f show ?thesis
    by (simp add: onInterval_initial)
qed

text \<open>
  C6. With at least three slides, whatever the current index, the buffer (empty, or
  with entries that are out of range) and the random source, the loop of the tick
  handler returns, and the value it returns is not the current index.
\<close>

theorem draw_loop_terminates:
  assumes "3 \<le> getLength cs"
  shows "\<exists>x buf' g'. draw_loop cs buf g = Some (x, buf', g') \<and> x \<noteq> Some (getIndex cs)"
proof -
  from assms have "2 \<le> getLength cs" by simp
  from draw_loop_total [OF this, of buf g] show ?thesis by auto
qed

theorem draw_loop_terminates_witness:
  "3 \<le> getLength four_components \<and> getIndex four_components = 0 \<and>
   draw_loop four_components [0, 0, 7] zeros = Some (Some 1, [2, 3, 0, 1, 2, 3, 0], zeros)"
proof -
  have d1: "draw four_components [0, 0, 7] zeros = (Some 0, [0, 7, 1, 2, 3, 0], zeros)"
    by (simp add: draw_def draw_front_def refill_def initShuffle_four getLength_four)
  have d2: "draw four_components [0, 7, 1, 2, 3, 0] zeros = (Some 0, [7, 1, 2, 3, 0], zeros)"
    by (simp add: draw_def draw_front_def refill_def initShuffle_four getLength_four)
  have d3: "draw four_components [7, 1, 2, 3, 0] zeros = (Some 1, [2, 3, 0, 1, 2, 3, 0], zeros)"
    by (simp add: draw_def draw_front_def refill_def initShuffle_four getLength_four)
  have l3: "draw_loop four_components [7, 1, 2, 3, 0] zeros
              = Some (Some 1, [2, 3, 0, 1, 2, 3, 0], zeros)"
    by (subst draw_loop.simps, subst d3) (simp add: getIndex_four)
  have l2: "draw_loop four_components [0, 7, 1, 2, 3, 0] zeros
              = Some (Some 1, [2, 3, 0, 1, 2, 3, 0], zeros)"
    by (subst draw_loop.simps, subst d2) (simp only: getIndex_four prod.case simp_thms if_True l3)
  have l1: "draw_loop four_components [0, 0, 7] zeros
              = Some (Some 1, [2, 3, 0, 1, 2, 3, 0], zeros)"
    by (subst draw_loop.simps, subst d1) (simp only: getIndex_four prod.case simp_thms if_True l2)
  show ?thesis
    using draw_loop_terminates [of four_components "[0, 0, 7]" zeros]
    by (simp add: getLength_four getIndex_four l1)
qed

text \<open>
  C7. \<open>shuffle(on)\<close>: turning shuffling on when it is off sets the buffer to a
  new permutation of all slide indices; turning it off when it is on sets the buffer to
  \<open>null\<close> and changes nothing else; turning it on when on, or off when off,
  changes nothing. Calling it twice with the same argument gives the state that one
  call gives, also when the slides have changed in between.
\<close>

theorem shuffle_idempotent:
  "(on \<and> shuffleBuffer s = None \<longrightarrow>
      shuffle cs on s =
        s\<lparr> shuffleBuffer := Some (fst (initShuffle cs (random s))),
           random := snd (initShuffle cs (random s)) \<rparr> \<and>
      mset (fst (initShuffle cs (random s))) = mset [0..<getLength cs]) \<and>
   (\<not> on \<and> shuffleBuffer s \<noteq> None \<longrightarrow> shuffle cs on s = s\<lparr> shuffleBuffer := None \<rparr>) \<and>
   (on \<and> shuffleBuffer s \<noteq> None \<longrightarrow> shuffle cs on s = s) \<and>
   (\<not> on \<and> shuffleBuffer s = None \<longrightarrow> shuffle cs on s = s) \<and>
   shuffle cs' on (shuffle cs on s) = shuffle cs on s"
  by (auto simp: shuffle_def Let_def initShuffle_mset split: prod.splits)

theorem shuffle_idempotent_witness:
  "shuffleBuffer initial_state \<noteq> None \<and>
   shuffleBuffer (shuffle four_components False initial_state) = None \<and>
   shuffleBuffer (shuffle four_components True (shuffle four_components False initial_state))
     = Some [1, 2, 3, 0] \<and>
   shuffle four_components True
     (shuffle four_components True (shuffle four_components False initial_state))
     = shuffle four_components True (shuffle four_components False initial_state) \<and>
   shuffle four_components False (shuffle four_components False initial_state)
     = shuffle four_components False initial_state"
proof -
  let ?off = "shuffle four_components False initial_state"
  have a: "shuffleBuffer initial_state \<noteq> None"
    by (simp add: initial_state_def Autoplay_def shuffle_options_def)
  have b: "shuffleBuffer ?off = None"
    using a shuffle_idempotent [of False initial_state four_components] by simp
  have r: "random ?off = zeros"
    using a shuffle_idempotent [of False initial_state four_components]
    by (simp add: initial_state_def Autoplay_def)
  note i = initShuffle_four
  note on = shuffle_idempotent [of True ?off four_components four_components]
  from on b have c: "shuffleBuffer (shuffle four_components True ?off) = Some [1, 2, 3, 0]"
    by (simp add: r i)
  from on have d: "shuffle four_components True (shuffle four_components True ?off)
                     = shuffle four_components True ?off"
    by blast
  from shuffle_idempotent [of False initial_state four_components four_components]
  have e: "shuffle four_components False ?off = ?off"
    by blast
  from a b c d e show ?thesis by blast
qed

text \<open>
  C8. As stated, \<open>onMove\<close> sets the timer to the slide's override whenever the
  slide exists and the attribute is present and numeric. For the slide whose attribute
  is \<open>0\<close> the override is zero, and the timer is set to the global interval of
  5000 instead.
\<close>

theorem onMove_as_specified_counterexample:
  "timer_interval (timer (onMove decimal_plus shuffle_options four_components 0 initial_state))
     \<noteq> spec_onMove_time decimal_plus shuffle_options four_components 0"
  by (simp add: onMove_def spec_onMove_time_def timer_set_def four_components_def
        shuffle_options_def decimal_digits_def)

text \<open>
  C8, amended. \<open>onMove(i)\<close> sets the timer's interval to the slide's override
  when the slide exists and the coerced attribute is a number other than zero (not
  \<open>NaN\<close>), and to the global \<open>interval\<close> option otherwise. An absent
  attribute is \<open>null\<close>, which the unary plus coerces to zero, so it gives the
  global interval as well.
\<close>

theorem onMove_override:
  "timer_interval (timer (onMove toNumber opts cs index s)) =
     (case getAt cs index of
        None \<Rightarrow> interval opts
      | Some Slide \<Rightarrow>
          if toNumber (interval_attr Slide) \<noteq> NaN \<and> toNumber (interval_attr Slide) \<noteq> Num 0
          then toNumber (interval_attr Slide)
          else interval opts) \<and>
   (toNumber None = Num 0 \<longrightarrow>
      (\<forall>Slide. getAt cs index = Some Slide \<and> interval_attr Slide = None \<longrightarrow>
         timer_interval (timer (onMove toNumber opts cs index s)) = interval opts))"
proof -
  have t: "truthy n = (n \<noteq> NaN \<and> n \<noteq> Num 0)" for n
    by (cases n) auto
  show ?thesis
    by (auto simp: onMove_def timer_set_def t split: option.splits)
qed

theorem onMove_override_witness:
  "decimal_plus None = Num 0 \<and>
   timer_interval (timer (onMove decimal_plus shuffle_options four_components 1 initial_state))
     = Num 3000 \<and>
   timer_interval (timer (onMove decimal_plus shuffle_options four_components 2 initial_state))
     = Num 5000 \<and>
   timer_interval (timer (onMove decimal_plus shuffle_options four_components 3 initial_state))
     = Num 5000 \<and>
   timer_interval (timer (onMove decimal_plus shuffle_options four_components 4 initial_state))
     = Num 5000"
  using onMove_override [of decimal_plus shuffle_options four_components 1 initial_state]
    onMove_override [of decimal_plus shuffle_options four_components 2 initial_state]
    onMove_override [of decimal_plus shuffle_options four_components 3 initial_state]
    onMove_override [of decimal_plus shuffle_options four_components 4 initial_state]
  by (simp add: four_components_def shuffle_options_def decimal_digits_def)

text \<open>
  C9. \<open>shuffleArray\<close> does not change the array it is given. On the store of
  arrays it returns a new address; every array that was in the store before, the
  argument among them, is as it was; and the array at the new address has the length
  and the elements (as a multiset) of the argument. It is the array that the loop
  computes on the argument's value. So \<open>initShuffle()\<close> returns a permutation of
  the indices from zero up to the slide count.
\<close>

theorem shuffleArray_copies:
  assumes "arr < length h" and "shuffleArray_store arr h g = (arr', h', g')"
  shows "arr' = length h \<and> length h' = Suc (length h) \<and>
         (\<forall>a < length h. h' ! a = h ! a) \<and>
         h' ! arr = h ! arr \<and>
         h' ! arr' = fst (shuffleArray (h ! arr) g) \<and>
         length (h' ! arr') = length (h ! arr) \<and>
         mset (h' ! arr') = mset (h ! arr) \<and>
         mset (fst (initShuffle cs g)) = mset [0..<getLength cs] \<and>
         set (fst (initShuffle cs g)) = {0..<getLength cs} \<and>
         length (fst (initShuffle cs g)) = getLength cs"
proof -
  from assms have r: "arr' = length h" "h' = h @ [fst (shuffleArray (h ! arr) g)]"
    by (simp_all add: shuffleArray_store_eq)
  have l: "length (fst (shuffleArray (h ! arr) g)) = length (h ! arr)"
    using mset_eq_length [OF shuffleArray_mset [of "h ! arr" g]] .
  obtain p g1 where p: "initShuffle cs g = (p, g1)"
    by (cases "initShuffle cs g")
  show ?thesis
    using assms(1) initShuffle_perm [OF p]
    by (simp add: r l p nth_append shuffleArray_mset)
qed

theorem shuffleArray_copies_witness:
  "(0::nat) < length [[10, 20, 30 :: nat]] \<and>
   fst (snd (shuffleArray_store 0 [[10, 20, 30 :: nat]] zeros)) = [[10, 20, 30], [20, 30, 10]] \<and>
   fst (initShuffle four_components zeros) = [1, 2, 3, 0]"
proof -
  have s: "shuffleArray_store 0 [[10, 20, 30 :: nat]] zeros
             = (1, [[10, 20, 30], [20, 30, 10]], zeros)"
    by (simp add: shuffleArray_store_def shuffle_loop_store.simps random_floor_def zeros_tail)
  note i = initShuffle_four
  have a: "(0::nat) < length [[10, 20, 30 :: nat]]" by simp
  show ?thesis
    using shuffleArray_copies [OF a s, of four_components] by (simp add: s i)
qed

text \<open>
  C10. When the slide exists and its attribute is present and coerces to zero or to
  \<open>NaN\<close>, \<open>onMove\<close> sets the timer to the global \<open>interval\<close> option: an
  override of zero is not honoured.
\<close>

theorem onMove_zero_override:
  assumes "getAt cs index = Some Slide"
    and "interval_attr Slide = Some a"
    and "toNumber (Some a) = Num 0 \<or> toNumber (Some a) = NaN"
  shows "timer_interval (timer (onMove toNumber opts cs index s)) = interval opts"
  using assms by (auto simp: onMove_def timer_set_def)

theorem onMove_zero_override_witness:
  "getAt four_components 0 = Some \<lparr> interval_attr = Some ''0'' \<rparr> \<and>
   decimal_plus (Some ''0'') = Num 0 \<and>
   timer_interval (timer (onMove decimal_plus shuffle_options four_components 0 initial_state))
     = Num 5000 \<and>
   getAt four_components 3 = Some \<lparr> interval_attr = Some ''fast'' \<rparr> \<and>
   decimal_plus (Some ''fast'') = NaN \<and>
   timer_interval (timer (onMove decimal_plus shuffle_options four_components 3 initial_state))
     = Num 5000"
proof -
  have a: "getAt four_components 0 = Some \<lparr> interval_attr = Some ''0'' \<rparr>"
    "getAt four_components 3 = Some \<lparr> interval_attr = Some ''fast'' \<rparr>"
    by (simp_all add: four_components_def)
  have c: "decimal_plus (Some ''0'') = Num 0" "decimal_plus (Some ''fast'') = NaN"
    by (simp_all add: decimal_digits_def)
  have i: "interval shuffle_options = Num 5000"
    by (simp add: shuffle_options_def)
  show ?thesis
    using a c i
      onMove_zero_override [of four_components 0 "\<lparr> interval_attr = Some ''0'' \<rparr>" "''0''"
        decimal_plus shuffle_options initial_state]
      onMove_zero_override [of four_components 3 "\<lparr> interval_attr = Some ''fast'' \<rparr>"
        "''fast''" decimal_plus shuffle_options initial_state]
    by simp
qed

end
